theory Spec2Isabelle
  imports Complex_Main
begin

section \<open>Values exchanged with the Orders API\<close>

text \<open>
  The notebooks talk to the remote service through the \<^verbatim>\<open>requests\<close> library and look
  at the decoded JSON bodies only. A JSON value is modelled as Python decodes it: a
  \<^verbatim>\<open>dict\<close> is an association list of its items, a number is a rational (a Python
  \<^verbatim>\<open>int\<close> or a finite \<^verbatim>\<open>float\<close>).
\<close>

datatype json =
    JNull
  | JBool bool
  | JNum rat
  | JStr string
  | JArr "json list"
  | JObj "(string \<times> json) list"

text \<open>
  The exceptions that the modelled code can let escape. \<open>RequestException\<close> is what
  \<^verbatim>\<open>session.get\<close> and \<^verbatim>\<open>session.post\<close> raise on a transport failure (it carries
  the library's message), \<open>JSONDecodeError\<close> is raised by \<^verbatim>\<open>.json()\<close> on a body that
  is not JSON, \<open>KeyError\<close> and \<open>TypeError\<close> by subscripting and by \<^verbatim>\<open>+\<close>, and
  \<open>UnboundLocalError\<close> by reading a local variable that was never assigned.
\<close>

datatype exn =
    RequestException string
  | JSONDecodeError
  | KeyError string
  | TypeError
  | UnboundLocalError string

text \<open>
  A \<^verbatim>\<open>requests.Response\<close>: the HTTP status and the decoded body (\<open>None\<close> when the
  body is not JSON).
\<close>

record response =
  status_code :: nat
  decoded :: "json option"

text \<open>What one HTTP call does: it raises inside the library, or it returns a response.\<close>

datatype reply = Raises string | Returns response

text \<open>
  The \<^verbatim>\<open>requests.Session\<close> object together with the remote service behind it.
  \<open>session_get s url auth k\<close> is the outcome of the \<open>k\<close>-th GET (counted from 0) that
  the poller sends to \<open>url\<close>; \<open>session_post s url body auth\<close> is the outcome of a POST.
\<close>

record session =
  session_auth :: "string \<times> string"
  session_get :: "string \<Rightarrow> string \<times> string \<Rightarrow> nat \<Rightarrow> reply"
  session_post :: "string \<Rightarrow> json \<Rightarrow> string \<times> string \<Rightarrow> reply"

text \<open>\<^verbatim>\<open>r.json()\<close>\<close>

definition response_json :: "response \<Rightarrow> exn + json" where
  "response_json resp =
     (case decoded resp of None \<Rightarrow> Inl JSONDecodeError | Some j \<Rightarrow> Inr j)"

text \<open>
  \<^verbatim>\<open>v[key]\<close> for a string key: a \<^verbatim>\<open>dict\<close> without the key raises
  \<^verbatim>\<open>KeyError\<close>, every other JSON value raises \<^verbatim>\<open>TypeError\<close>.
\<close>

fun py_getitem :: "json \<Rightarrow> string \<Rightarrow> exn + json" where
  "py_getitem (JObj kvs) key =
     (case map_of kvs key of None \<Rightarrow> Inl (KeyError key) | Some v \<Rightarrow> Inr v)"
| "py_getitem _ key = Inl TypeError"

section \<open>Placing an order\<close>

definition ORDERS_API_URL :: string where
  "ORDERS_API_URL = ''https://api.planet.com/compute/ops/orders/v2''"

text \<open>
  \<^verbatim>\<open>
  def place_order(order_params, auth):
      response = session.post(ORDERS_API_URL, json=order_params, auth=auth, headers={
                              'content-type': 'application/json'})
      order_id = response.json()['id']
      order_url = ORDERS_API_URL + '/' + order_id
      return order_url
  \<close>
  The status code of the response is never read. \<^verbatim>\<open>str + x\<close> raises
  \<^verbatim>\<open>TypeError\<close> unless \<^verbatim>\<open>x\<close> is a string.
\<close>

definition place_order :: "session \<Rightarrow> json \<Rightarrow> string \<times> string \<Rightarrow> exn + string" where
  "place_order session order_params auth =
     (case session_post session ORDERS_API_URL order_params auth of
        Raises msg \<Rightarrow> Inl (RequestException msg)
      | Returns response \<Rightarrow>
          (case response_json response of
             Inl e \<Rightarrow> Inl e
           | Inr j \<Rightarrow>
               (case py_getitem j ''id'' of
                  Inl e \<Rightarrow> Inl e
                | Inr order_id \<Rightarrow>
                    (case order_id of
                       JStr s \<Rightarrow> Inr (ORDERS_API_URL @ ''/'' @ s)
                     | _ \<Rightarrow> Inl TypeError))))"

section \<open>Polling for completion\<close>

text \<open>
  \<^verbatim>\<open>
  def poll_for_success(order_url):
      state = ''
      end_states = ['success', 'failed', 'partial']
      while state not in end_states:
          r = session.get(order_url, auth=session.auth)
          response = r.json()
          state = response['state']
          print(state)
          if state in end_states:
              break
          time.sleep(10)
      return r
  \<close>
  What the function does to the outside world is recorded as a trace of events: each GET
  sent, each value printed, each sleep with its duration in seconds.
\<close>

datatype event = Get string | Print json | Sleep nat

definition end_states :: "json list" where
  "end_states = [JStr ''success'', JStr ''failed'', JStr ''partial'']"

text \<open>
  The local variables \<^verbatim>\<open>state\<close> and \<^verbatim>\<open>r\<close> (\<open>None\<close> while \<^verbatim>\<open>r\<close> is unbound),
  the number of GETs sent so far and the trace.
\<close>

record frame =
  v_state :: json
  v_r :: "response option"
  n_get :: nat
  trace :: "event list"

definition initial_frame :: frame where
  "initial_frame = \<lparr>v_state = JStr [], v_r = None, n_get = 0, trace = []\<rparr>"

text \<open>How one pass through the loop body ends.\<close>

datatype signal = Raise exn | Break | Fallthrough

definition loop_body :: "session \<Rightarrow> string \<Rightarrow> frame \<Rightarrow> signal \<times> frame" where
  "loop_body session order_url f =
     (let f1 = f\<lparr>n_get := Suc (n_get f), trace := trace f @ [Get order_url]\<rparr> in
      case session_get session order_url (session_auth session) (n_get f) of
        Raises msg \<Rightarrow> (Raise (RequestException msg), f1)
      | Returns resp \<Rightarrow>
          (let f2 = f1\<lparr>v_r := Some resp\<rparr> in
           case response_json resp of
             Inl e \<Rightarrow> (Raise e, f2)
           | Inr response \<Rightarrow>
               (case py_getitem response ''state'' of
                  Inl e \<Rightarrow> (Raise e, f2)
                | Inr st \<Rightarrow>
                    (let f3 = f2\<lparr>v_state := st, trace := trace f2 @ [Print st]\<rparr> in
                     if st \<in> set end_states then (Break, f3)
                     else (Fallthrough, f3\<lparr>trace := trace f3 @ [Sleep 10]\<rparr>)))))"

text \<open>
  The \<^verbatim>\<open>while\<close> loop. It need not terminate, so not returning is the value \<open>None\<close>.
  A result \<open>Some (Some e, f)\<close> is the exception \<open>e\<close> escaping with the world as in
  \<open>f\<close>; \<open>Some (None, f)\<close> is the loop left normally.
\<close>

partial_function (option) while_loop ::
  "session \<Rightarrow> string \<Rightarrow> frame \<Rightarrow> (exn option \<times> frame) option" where
  "while_loop session order_url f =
     (if v_state f \<in> set end_states then Some (None, f)
      else
        (case loop_body session order_url f of
           (Raise e, f') \<Rightarrow> Some (Some e, f')
         | (Break, f') \<Rightarrow> Some (None, f')
         | (Fallthrough, f') \<Rightarrow> while_loop session order_url f'))"

text \<open>
  The whole function: \<open>None\<close> when it never returns, otherwise the exception raised or
  the response returned, with the trace of what it did. \<^verbatim>\<open>return r\<close> raises
  \<^verbatim>\<open>UnboundLocalError\<close> when \<^verbatim>\<open>r\<close> was never assigned.
\<close>

definition poll_for_success ::
  "session \<Rightarrow> string \<Rightarrow> ((exn + response) \<times> event list) option" where
  "poll_for_success session order_url =
     (case while_loop session order_url initial_frame of
        None \<Rightarrow> None
      | Some (Some e, f) \<Rightarrow> Some (Inl e, trace f)
      | Some (None, f) \<Rightarrow>
          (case v_r f of
             None \<Rightarrow> Some (Inl (UnboundLocalError ''r''), trace f)
           | Some resp \<Rightarrow> Some (Inr resp, trace f)))"

text \<open>
  The same loop cut off after \<open>n\<close> tests of its condition: \<open>Inl\<close> is the loop over
  within \<open>n\<close> iterations (with the result of \<open>while_loop\<close>), \<open>Inr f\<close> is the loop
  still running, about to test its condition for the \<open>n+1\<close>-st time in frame \<open>f\<close>.
\<close>

fun while_steps ::
  "nat \<Rightarrow> session \<Rightarrow> string \<Rightarrow> frame \<Rightarrow> (exn option \<times> frame) + frame" where
  "while_steps 0 session order_url f = Inr f"
| "while_steps (Suc n) session order_url f =
     (if v_state f \<in> set end_states then Inl (None, f)
      else
        (case loop_body session order_url f of
           (Raise e, f') \<Rightarrow> Inl (Some e, f')
         | (Break, f') \<Rightarrow> Inl (None, f')
         | (Fallthrough, f') \<Rightarrow> while_steps n session order_url f'))"

subsection \<open>Reading a trace\<close>

fun queries :: "event list \<Rightarrow> nat" where
  "queries [] = 0"
| "queries (Get u # es) = Suc (queries es)"
| "queries (_ # es) = queries es"


text \<open>The state that a reply carries, if it carries one.\<close>

definition reply_state :: "reply \<Rightarrow> json option" where
  "reply_state rp =
     (case rp of
        Raises msg \<Rightarrow> None
      | Returns resp \<Rightarrow>
          (case response_json resp of
             Inl e \<Rightarrow> None
           | Inr j \<Rightarrow> (case py_getitem j ''state'' of Inl e \<Rightarrow> None | Inr st \<Rightarrow> Some st)))"


text \<open>
  The events of a row of iterations that each observe a state and go on: one GET, the
  state printed, ten seconds slept.
\<close>

fun polling_events :: "string \<Rightarrow> json list \<Rightarrow> event list" where
  "polling_events u [] = []"
| "polling_events u (st # sts) = Get u # Print st # Sleep 10 # polling_events u sts"

text \<open>The states carried by the first \<open>n\<close> replies of the service, in order.\<close>

definition observed :: "session \<Rightarrow> string \<Rightarrow> nat \<Rightarrow> json option list" where
  "observed s u n = map (\<lambda>k. reply_state (session_get s u (session_auth s) k)) [0..<n]"

section \<open>Stub services\<close>

text \<open>
  Scripted services of the kind the specification's test cases use: the \<open>k\<close>-th GET is
  answered by the \<open>k\<close>-th entry of a script.
\<close>

definition status_reply :: "string \<Rightarrow> reply" where
  "status_reply st = Returns \<lparr>status_code = 200, decoded = Some (JObj [(''state'', JStr st)])\<rparr>"

definition success_response :: response where
  "success_response =
     \<lparr>status_code = 200,
      decoded = Some (JObj [(''state'', JStr ''success''),
                            (''_links'', JObj [(''results'',
                               JArr [JObj [(''name'', JStr ''manifest.json'')]])])])\<rparr>"

definition stub_session :: "(nat \<Rightarrow> reply) \<Rightarrow> session" where
  "stub_session script =
     \<lparr>session_auth = (''PL_API_KEY'', []),
      session_get = (\<lambda>url auth k. script k),
      session_post = (\<lambda>url body auth. Raises ''no POST in this script'')\<rparr>"

definition queued_running_running_success :: "nat \<Rightarrow> reply" where
  "queued_running_running_success k =
     (if k = 0 then status_reply ''queued''
      else if k < 3 then status_reply ''running''
      else Returns success_response)"

definition running_then_success :: "nat \<Rightarrow> nat \<Rightarrow> reply" where
  "running_then_success n k =
     (if k < n then status_reply ''running'' else Returns success_response)"

definition always_running :: "nat \<Rightarrow> reply" where
  "always_running k = status_reply ''running''"

definition running_then_transport_failure :: "nat \<Rightarrow> reply" where
  "running_then_transport_failure k =
     (if k = 0 then status_reply ''running'' else Raises ''Connection aborted.'')"

text \<open>
  Services whose second reply is not a 2xx response: an HTTP 503 whose body still
  carries a state, followed by the successful reply, and an HTTP 404 whose body has no
  \<^verbatim>\<open>state\<close>.
\<close>

definition unavailable_response :: response where
  "unavailable_response =
     \<lparr>status_code = 503, decoded = Some (JObj [(''state'', JStr ''running'')])\<rparr>"

definition unavailable_then_success :: "nat \<Rightarrow> reply" where
  "unavailable_then_success k =
     (if k = 0 then status_reply ''running''
      else if k = 1 then Returns unavailable_response
      else Returns success_response)"

definition not_found_response :: response where
  "not_found_response =
     \<lparr>status_code = 404, decoded = Some (JObj [(''message'', JStr ''Not Found'')])\<rparr>"

definition running_then_not_found :: "nat \<Rightarrow> reply" where
  "running_then_not_found k =
     (if k = 0 then status_reply ''running'' else Returns not_found_response)"

definition order_url0 :: string where
  "order_url0 = ORDERS_API_URL @ ''/25486588-0f1b-4627-aa66-b27a9c765be9''"

text \<open>
  The order packet of the notebook (\<^verbatim>\<open>order_params\<close>, the order by geometry);
  \<^verbatim>\<open>GCP_CREDENTIALS\<close> comes from the environment.
\<close>

definition order_params :: "json \<Rightarrow> json" where
  "order_params GCP_CREDENTIALS =
     JObj [
       (''name'', JStr ''basemap order with geometry''),
       (''source_type'', JStr ''basemaps''),
       (''order_type'', JStr ''partial''),
       (''products'', JArr [
          JObj [
            (''mosaic_name'', JStr ''global_monthly_2022_01_mosaic''),
            (''geometry'', JObj [
               (''type'', JStr ''Polygon''),
               (''coordinates'', JArr [JArr [
                  JArr [JNum (4607406 / 1000000), JNum (52353994 / 1000000)],
                  JArr [JNum (4680005 / 1000000), JNum (52353994 / 1000000)],
                  JArr [JNum (4680005 / 1000000), JNum (52395523 / 1000000)],
                  JArr [JNum (4607406 / 1000000), JNum (52395523 / 1000000)],
                  JArr [JNum (4607406 / 1000000), JNum (52353994 / 1000000)]]])])]]),
       (''tools'', JArr [JObj [(''merge'', JObj [])], JObj [(''clip'', JObj [])]]),
       (''delivery'', JObj [
          (''google_cloud_storage'', JObj [
             (''bucket'', JStr ''devrel-notebooks''),
             (''credentials'', GCP_CREDENTIALS),
             (''path_prefix'', JStr ''basemaps-to-cloud/'')])])]"

text \<open>
  A service that rejects every order: HTTP 400 with the error body of the Orders API,
  which has no \<^verbatim>\<open>id\<close>.
\<close>

definition rejected_response :: response where
  "rejected_response =
     \<lparr>status_code = 400,
      decoded = Some (JObj [(''field'', JObj []),
                            (''general'', JArr [JObj [(''message'',
                               JStr ''Unable to accept order'')]])])\<rparr>"

definition rejecting_session :: session where
  "rejecting_session =
     \<lparr>session_auth = (''PL_API_KEY'', []),
      session_get = (\<lambda>url auth k. Raises ''no GET in this script''),
      session_post = (\<lambda>url body auth. Returns rejected_response)\<rparr>"

section \<open>Lemmas about the loop\<close>

text \<open>
  The loop cut off after \<open>n\<close> iterations and the loop itself agree: the loop has a
  result exactly when some number of iterations reaches it.
\<close>

lemma queries_append: "queries (xs @ ys) = queries xs + queries ys"
  by (induction xs rule: queries.induct) simp_all


lemma while_steps_sound:
  "while_steps n s u f = Inl res \<Longrightarrow> while_loop s u f = Some res"
proof (induction n arbitrary: f)
  case 0
  then show ?case by simp
next
  case (Suc n)
  show ?case
  proof (cases "v_state f \<in> set end_states")
    case True
    with Suc.prems show ?thesis
      by (subst while_loop.simps) simp
  next
    case False
    obtain sg f' where lb: "loop_body s u f = (sg, f')"
      by (cases "loop_body s u f")
    show ?thesis
    proof (cases sg)
      case (Raise e)
      with Suc.prems False lb show ?thesis
        by (subst while_loop.simps) simp
    next
      case Break
      with Suc.prems False lb show ?thesis
        by (subst while_loop.simps) simp
    next
      case Fallthrough
      with Suc.prems False lb have "while_steps n s u f' = Inl res"
        by simp
      then have "while_loop s u f' = Some res"
        by (rule Suc.IH)
      with False lb Fallthrough show ?thesis
        by (subst while_loop.simps) simp
    qed
  qed
qed

lemmas while_loop_induct = while_loop.raw_induct [rotated 1, consumes 1, case_names step]

lemma while_loop_complete:
  "while_loop s u f = Some res \<Longrightarrow> \<exists>n. while_steps n s u f = Inl res"
proof (induction rule: while_loop_induct)
  case (step wl s u f res)
  show ?case
  proof (cases "v_state f \<in> set end_states")
    case True
    with step(2) have "while_steps (Suc 0) s u f = Inl res" by simp
    then show ?thesis ..
  next
    case False
    obtain sg f' where lb: "loop_body s u f = (sg, f')"
      by (cases "loop_body s u f")
    show ?thesis
    proof (cases sg)
      case (Raise e)
      with step(2) False lb have "while_steps (Suc 0) s u f = Inl res" by simp
      then show ?thesis ..
    next
      case Break
      with step(2) False lb have "while_steps (Suc 0) s u f = Inl res" by simp
      then show ?thesis ..
    next
      case Fallthrough
      with step(2) False lb have "wl s u f' = Some res" by simp
      then obtain n where "while_steps n s u f' = Inl res"
        using step(1) by blast
      with False lb Fallthrough have "while_steps (Suc n) s u f = Inl res" by simp
      then show ?thesis ..
    qed
  qed
qed

lemma py_getitem_exn: "py_getitem j key = Inl e \<Longrightarrow> e = KeyError key \<or> e = TypeError"
  by (cases j) (auto split: option.splits)

lemma reply_state_Returns: "reply_state rp = Some st \<Longrightarrow> \<exists>resp. rp = Returns resp"
  by (cases rp) (simp_all add: reply_state_def)

lemma loop_body_transport:
  assumes "session_get s u (session_auth s) (n_get f) = Raises msg"
  shows "loop_body s u f =
    (Raise (RequestException msg), f\<lparr>n_get := Suc (n_get f), trace := trace f @ [Get u]\<rparr>)"
  using assms by (simp add: loop_body_def)

lemma loop_body_observed:
  assumes "session_get s u (session_auth s) (n_get f) = Returns resp"
    and "reply_state (Returns resp) = Some st"
  shows "loop_body s u f =
    (if st \<in> set end_states
     then (Break, f\<lparr>v_state := st, v_r := Some resp, n_get := Suc (n_get f),
                    trace := trace f @ [Get u, Print st]\<rparr>)
     else (Fallthrough, f\<lparr>v_state := st, v_r := Some resp, n_get := Suc (n_get f),
                    trace := trace f @ [Get u, Print st, Sleep 10]\<rparr>))"
  using assms
  by (auto simp: loop_body_def reply_state_def Let_def split: sum.splits)

lemma loop_body_Raise:
  assumes "loop_body s u f = (Raise e, f')"
  shows "trace f' = trace f @ [Get u]"
    and "n_get f' = Suc (n_get f)"
    and "reply_state (session_get s u (session_auth s) (n_get f)) = None"
    and "e \<noteq> UnboundLocalError x"
  using assms
  by (auto simp: loop_body_def reply_state_def response_json_def Let_def
      split: reply.splits sum.splits option.splits if_splits dest: py_getitem_exn)

lemma loop_body_Break:
  assumes "loop_body s u f = (Break, f')"
  obtains resp st where "session_get s u (session_auth s) (n_get f) = Returns resp"
    and "reply_state (Returns resp) = Some st"
    and "st \<in> set end_states"
    and "f' = f\<lparr>v_state := st, v_r := Some resp, n_get := Suc (n_get f),
                 trace := trace f @ [Get u, Print st]\<rparr>"
  using assms
  by (auto simp: loop_body_def reply_state_def Let_def
      split: reply.splits sum.splits if_splits)

lemma loop_body_Fallthrough:
  assumes "loop_body s u f = (Fallthrough, f')"
  obtains resp st where "session_get s u (session_auth s) (n_get f) = Returns resp"
    and "reply_state (Returns resp) = Some st"
    and "st \<notin> set end_states"
    and "f' = f\<lparr>v_state := st, v_r := Some resp, n_get := Suc (n_get f),
                 trace := trace f @ [Get u, Print st, Sleep 10]\<rparr>"
  using assms
  by (auto simp: loop_body_def reply_state_def Let_def
      split: reply.splits sum.splits if_splits)

text \<open>
  An invariant rule for the loop: what holds of the first frame and is kept by every
  iteration that falls through to the sleep holds where the loop stands after \<open>n\<close>
  iterations, and held of the frame in which the last iteration started.
\<close>

lemma while_steps_rule:
  assumes inv: "I f"
    and test: "\<And>g. I g \<Longrightarrow> v_state g \<notin> set end_states"
    and pres: "\<And>g g'. I g \<Longrightarrow> loop_body s u g = (Fallthrough, g') \<Longrightarrow> I g'"
  shows "case while_steps n s u f of
           Inr f' \<Rightarrow> I f'
         | Inl (eo, f') \<Rightarrow>
             \<exists>g. I g \<and> loop_body s u g = ((case eo of None \<Rightarrow> Break | Some e \<Rightarrow> Raise e), f')"
  using inv
proof (induction n arbitrary: f)
  case 0
  then show ?case by simp
next
  case (Suc n)
  from Suc.prems have nt: "v_state f \<notin> set end_states" by (rule test)
  obtain sg f' where lb: "loop_body s u f = (sg, f')"
    by (cases "loop_body s u f")
  show ?case
  proof (cases sg)
    case (Raise e)
    with nt lb Suc.prems show ?thesis by auto
  next
    case Break
    with nt lb Suc.prems show ?thesis by auto
  next
    case Fallthrough
    with lb Suc.prems have "I f'" by (auto intro: pres)
    then have "case while_steps n s u f' of
           Inr f' \<Rightarrow> I f'
         | Inl (eo, f') \<Rightarrow>
             \<exists>g. I g \<and> loop_body s u g = ((case eo of None \<Rightarrow> Break | Some e \<Rightarrow> Raise e), f')"
      by (rule Suc.IH)
    with nt lb Fallthrough show ?thesis by simp
  qed
qed

lemma poll_for_success_rule:
  assumes run: "poll_for_success s u = Some (out, tr)"
    and init: "I initial_frame"
    and test: "\<And>g. I g \<Longrightarrow> v_state g \<notin> set end_states"
    and pres: "\<And>g g'. I g \<Longrightarrow> loop_body s u g = (Fallthrough, g') \<Longrightarrow> I g'"
  shows "\<exists>g f'. I g \<and> tr = trace f' \<and>
           ((\<exists>e. out = Inl e \<and> loop_body s u g = (Raise e, f')) \<or>
            (\<exists>resp. out = Inr resp \<and> v_r f' = Some resp \<and> loop_body s u g = (Break, f')))"
proof -
  from run obtain eo f' where wl: "while_loop s u initial_frame = Some (eo, f')"
    by (auto simp: poll_for_success_def split: option.splits)
  then obtain n where ws: "while_steps n s u initial_frame = Inl (eo, f')"
    by (blast dest: while_loop_complete)
  have "case while_steps n s u initial_frame of
           Inr f' \<Rightarrow> I f'
         | Inl (eo, f') \<Rightarrow>
             \<exists>g. I g \<and> loop_body s u g = ((case eo of None \<Rightarrow> Break | Some e \<Rightarrow> Raise e), f')"
    using init test pres by (rule while_steps_rule)
  with ws obtain g where g: "I g"
    "loop_body s u g = ((case eo of None \<Rightarrow> Break | Some e \<Rightarrow> Raise e), f')"
    by auto
  show ?thesis
  proof (cases eo)
    case None
    with g(2) have br: "loop_body s u g = (Break, f')" by simp
    then obtain resp where "v_r f' = Some resp"
      by (auto elim: loop_body_Break)
    with run wl None g(1) br show ?thesis
      by (auto simp: poll_for_success_def)
  next
    case (Some e)
    with run wl g show ?thesis
      by (auto simp: poll_for_success_def)
  qed
qed

lemma polling_events_snoc:
  "polling_events u (sts @ [st]) = polling_events u sts @ [Get u, Print st, Sleep 10]"
  by (induction sts) simp_all


lemma initial_frame_nonterminal: "v_state initial_frame \<notin> set end_states"
  by (simp add: initial_frame_def end_states_def)

lemma while_steps_go_on:
  assumes "v_state f \<notin> set end_states"
    and "session_get s u (session_auth s) (n_get f) = Returns resp"
    and "reply_state (Returns resp) = Some st"
    and "st \<notin> set end_states"
  shows "while_steps (Suc n) s u f =
    while_steps n s u (f\<lparr>v_state := st, v_r := Some resp, n_get := Suc (n_get f),
                          trace := trace f @ [Get u, Print st, Sleep 10]\<rparr>)"
  using assms by (simp add: loop_body_observed)

lemma while_steps_stop:
  assumes "v_state f \<notin> set end_states"
    and "session_get s u (session_auth s) (n_get f) = Returns resp"
    and "reply_state (Returns resp) = Some st"
    and "st \<in> set end_states"
  shows "while_steps (Suc n) s u f =
    Inl (None, f\<lparr>v_state := st, v_r := Some resp, n_get := Suc (n_get f),
                  trace := trace f @ [Get u, Print st]\<rparr>)"
  using assms by (simp add: loop_body_observed)

lemma while_steps_transport:
  assumes "v_state f \<notin> set end_states"
    and "session_get s u (session_auth s) (n_get f) = Raises msg"
  shows "while_steps (Suc n) s u f =
    Inl (Some (RequestException msg),
         f\<lparr>n_get := Suc (n_get f), trace := trace f @ [Get u]\<rparr>)"
  using assms by (simp add: loop_body_transport)

lemma poll_for_success_from_steps:
  assumes "while_steps n s u initial_frame = Inl (eo, f)"
  shows "poll_for_success s u =
    (case eo of
       Some e \<Rightarrow> Some (Inl e, trace f)
     | None \<Rightarrow>
         (case v_r f of
            None \<Rightarrow> Some (Inl (UnboundLocalError ''r''), trace f)
          | Some resp \<Rightarrow> Some (Inr resp, trace f)))"
  using while_steps_sound [OF assms]
  by (simp add: poll_for_success_def split: option.splits)

lemma while_steps_never_terminal:
  assumes "\<forall>k. \<exists>st. reply_state (session_get s u (session_auth s) k) = Some st
                    \<and> st \<notin> set end_states"
    and "v_state f \<notin> set end_states"
  shows "\<exists>f'. while_steps n s u f = Inr f' \<and> n_get f' = n_get f + n
              \<and> queries (trace f') = queries (trace f) + n"
  using assms(2)
proof (induction n arbitrary: f)
  case 0
  then show ?case by simp
next
  case (Suc n)
  from assms(1) obtain st where st: "reply_state (session_get s u (session_auth s) (n_get f)) = Some st"
    "st \<notin> set end_states" by blast
  then obtain resp where resp: "session_get s u (session_auth s) (n_get f) = Returns resp"
    by (blast dest: reply_state_Returns)
  let ?g = "f\<lparr>v_state := st, v_r := Some resp, n_get := Suc (n_get f),
                          trace := trace f @ [Get u, Print st, Sleep 10]\<rparr>"
  from st(1) resp have rs: "reply_state (Returns resp) = Some st" by simp
  from Suc.prems resp rs st(2)
  have step: "while_steps (Suc n) s u f = while_steps n s u ?g"
    by (rule while_steps_go_on)
  from st(2) have "v_state ?g \<notin> set end_states" by simp
  from Suc.IH [OF this] obtain f' where "while_steps n s u ?g = Inr f'"
    "n_get f' = n_get ?g + n" "queries (trace f') = queries (trace ?g) + n"
    by blast
  with step show ?case by (simp add: queries_append)
qed

lemma while_loop_never_terminal:
  assumes "\<forall>k. \<exists>st. reply_state (session_get s u (session_auth s) k) = Some st
                    \<and> st \<notin> set end_states"
    and "v_state f \<notin> set end_states"
  shows "while_loop s u f = None"
proof (cases "while_loop s u f")
  case None
  then show ?thesis .
next
  case (Some res)
  then obtain n where "while_steps n s u f = Inl res"
    by (blast dest: while_loop_complete)
  moreover from while_steps_never_terminal [OF assms] obtain f' where
    "while_steps n s u f = Inr f'" by blast
  ultimately show ?thesis by simp
qed

lemma while_steps_n_get:
  "while_steps n s u f = Inr f' \<Longrightarrow> n_get f' = n_get f + n"
proof (induction n arbitrary: f)
  case 0
  then show ?case by simp
next
  case (Suc n)
  obtain sg g where lb: "loop_body s u f = (sg, g)"
    by (cases "loop_body s u f")
  with Suc.prems have sg: "sg = Fallthrough" and run: "while_steps n s u g = Inr f'"
    by (auto split: if_splits signal.splits)
  from lb sg have "n_get g = Suc (n_get f)"
    by (auto elim: loop_body_Fallthrough)
  with Suc.IH [OF run] show ?case by simp
qed

subsection \<open>Runs against the stub services\<close>

lemma stub_get [simp]: "session_get (stub_session g) u a k = g k"
  by (simp add: stub_session_def)

lemma reply_state_status_reply [simp]: "reply_state (status_reply st) = Some (JStr st)"
  by (simp add: reply_state_def status_reply_def response_json_def)

lemma reply_state_success_response [simp]:
  "reply_state (Returns success_response) = Some (JStr ''success'')"
  by (simp add: reply_state_def success_response_def response_json_def)

lemma running_nonterminal [simp]: "JStr ''running'' \<notin> set end_states"
  by (simp add: end_states_def)

lemma queued_nonterminal [simp]: "JStr ''queued'' \<notin> set end_states"
  by (simp add: end_states_def)

lemma success_terminal [simp]: "JStr ''success'' \<in> set end_states"
  by (simp add: end_states_def)

lemmas run_defs = loop_body_def initial_frame_def status_reply_def success_response_def
  response_json_def end_states_def stub_session_def

lemma steps_queued_running_running_success:
  "while_steps 4 (stub_session queued_running_running_success) order_url0 initial_frame =
     Inl (None, \<lparr>v_state = JStr ''success'', v_r = Some success_response, n_get = 4,
                 trace = [Get order_url0, Print (JStr ''queued''), Sleep 10,
                          Get order_url0, Print (JStr ''running''), Sleep 10,
                          Get order_url0, Print (JStr ''running''), Sleep 10,
                          Get order_url0, Print (JStr ''success'')]\<rparr>)"
  by (simp add: eval_nat_numeral run_defs queued_running_running_success_def)

lemma poll_queued_running_running_success:
  "poll_for_success (stub_session queued_running_running_success) order_url0 =
     Some (Inr success_response,
           [Get order_url0, Print (JStr ''queued''), Sleep 10,
            Get order_url0, Print (JStr ''running''), Sleep 10,
            Get order_url0, Print (JStr ''running''), Sleep 10,
            Get order_url0, Print (JStr ''success'')])"
  by (simp add: poll_for_success_from_steps [OF steps_queued_running_running_success])


lemma steps_always_running_3:
  "while_steps 3 (stub_session always_running) order_url0 initial_frame =
     Inr \<lparr>v_state = JStr ''running'', v_r = Some \<lparr>status_code = 200, decoded = Some (JObj [(''state'', JStr ''running'')])\<rparr>, n_get = 3,
                 trace = [Get order_url0, Print (JStr ''running''), Sleep 10,
                          Get order_url0, Print (JStr ''running''), Sleep 10,
                          Get order_url0, Print (JStr ''running''), Sleep 10]\<rparr>"
  by (simp add: eval_nat_numeral run_defs always_running_def)

lemma poll_for_success_inv [consumes 1, case_names init pres Raised Returned]:
  assumes run: "poll_for_success s u = Some (out, tr)"
    and init: "I initial_frame"
    and pres: "\<And>g g'. I g \<Longrightarrow> v_state g \<notin> set end_states \<Longrightarrow>
                 loop_body s u g = (Fallthrough, g') \<Longrightarrow> I g'"
  obtains (Raised) g f' e where "I g" and "loop_body s u g = (Raise e, f')"
      and "out = Inl e" and "tr = trace f'"
    | (Returned) g f' resp where "I g" and "loop_body s u g = (Break, f')"
      and "out = Inr resp" and "v_r f' = Some resp" and "tr = trace f'"
proof -
  let ?J = "\<lambda>g. I g \<and> v_state g \<notin> set end_states"
  have J0: "?J initial_frame"
    using init initial_frame_nonterminal by simp
  have Jtest: "\<And>g. ?J g \<Longrightarrow> v_state g \<notin> set end_states"
    by simp
  have Jpres: "\<And>g g'. ?J g \<Longrightarrow> loop_body s u g = (Fallthrough, g') \<Longrightarrow> ?J g'"
  proof -
    fix g g'
    assume J: "?J g" and lb: "loop_body s u g = (Fallthrough, g')"
    from J lb have "I g'" by (blast intro: pres)
    moreover from lb have "v_state g' \<notin> set end_states"
      by (auto elim: loop_body_Fallthrough)
    ultimately show "?J g'" ..
  qed
  have "\<exists>g f'. ?J g \<and> tr = trace f' \<and>
           ((\<exists>e. out = Inl e \<and> loop_body s u g = (Raise e, f')) \<or>
            (\<exists>resp. out = Inr resp \<and> v_r f' = Some resp \<and> loop_body s u g = (Break, f')))"
    using run J0 Jtest Jpres by (rule poll_for_success_rule)
  then show thesis
    using Raised Returned by blast
qed

lemma while_steps_running_inv:
  assumes run: "while_steps n s u initial_frame = Inr f"
    and init: "I initial_frame"
    and pres: "\<And>g g'. I g \<Longrightarrow> v_state g \<notin> set end_states \<Longrightarrow>
                 loop_body s u g = (Fallthrough, g') \<Longrightarrow> I g'"
  shows "I f \<and> n_get f = n \<and> v_state f \<notin> set end_states"
proof -
  let ?J = "\<lambda>g. I g \<and> v_state g \<notin> set end_states"
  have J0: "?J initial_frame"
    using init initial_frame_nonterminal by simp
  have Jtest: "\<And>g. ?J g \<Longrightarrow> v_state g \<notin> set end_states"
    by simp
  have Jpres: "\<And>g g'. ?J g \<Longrightarrow> loop_body s u g = (Fallthrough, g') \<Longrightarrow> ?J g'"
  proof -
    fix g g'
    assume J: "?J g" and lb: "loop_body s u g = (Fallthrough, g')"
    from J lb have "I g'" by (blast intro: pres)
    moreover from lb have "v_state g' \<notin> set end_states"
      by (auto elim: loop_body_Fallthrough)
    ultimately show "?J g'" ..
  qed
  have "case while_steps n s u initial_frame of
           Inr f' \<Rightarrow> ?J f'
         | Inl (eo, f') \<Rightarrow>
             \<exists>g. ?J g \<and> loop_body s u g = ((case eo of None \<Rightarrow> Break | Some e \<Rightarrow> Raise e), f')"
    using J0 Jtest Jpres by (rule while_steps_rule)
  with run have "?J f" by simp
  moreover from while_steps_n_get [OF run] have "n_get f = n"
    by (simp add: initial_frame_def)
  ultimately show ?thesis by simp
qed

lemma steps_running_then_success_5:
  "while_steps 6 (stub_session (running_then_success 5)) order_url0 initial_frame =
     Inl (None, \<lparr>v_state = JStr ''success'', v_r = Some success_response, n_get = 6,
                 trace = polling_events order_url0 (replicate 5 (JStr ''running'')) @
                         [Get order_url0, Print (JStr ''success'')]\<rparr>)"
  by (simp add: eval_nat_numeral run_defs running_then_success_def)

lemma steps_running_then_success_5_at_3:
  "while_steps 3 (stub_session (running_then_success 5)) order_url0 initial_frame =
     Inr \<lparr>v_state = JStr ''running'',
          v_r = Some \<lparr>status_code = 200, decoded = Some (JObj [(''state'', JStr ''running'')])\<rparr>,
          n_get = 3,
          trace = polling_events order_url0 (replicate 3 (JStr ''running''))\<rparr>"
  by (simp add: eval_nat_numeral run_defs running_then_success_def)

lemma poll_running_then_success_5:
  "poll_for_success (stub_session (running_then_success 5)) order_url0 =
     Some (Inr success_response,
           polling_events order_url0 (replicate 5 (JStr ''running'')) @
             [Get order_url0, Print (JStr ''success'')])"
  by (simp add: poll_for_success_from_steps [OF steps_running_then_success_5])


lemma poll_always_running: "poll_for_success (stub_session always_running) order_url0 = None"
proof -
  have "\<forall>k. \<exists>st. reply_state (session_get (stub_session always_running) order_url0
                    (session_auth (stub_session always_running)) k) = Some st
                \<and> st \<notin> set end_states"
    by (simp add: always_running_def)
  then have "while_loop (stub_session always_running) order_url0 initial_frame = None"
    using initial_frame_nonterminal by (rule while_loop_never_terminal)
  then show ?thesis
    by (simp add: poll_for_success_def)
qed

lemma steps_always_running_4:
  "while_steps 4 (stub_session always_running) order_url0 initial_frame =
     Inr \<lparr>v_state = JStr ''running'', v_r = Some \<lparr>status_code = 200, decoded = Some (JObj [(''state'', JStr ''running'')])\<rparr>, n_get = 4,
                 trace = [Get order_url0, Print (JStr ''running''), Sleep 10,
                          Get order_url0, Print (JStr ''running''), Sleep 10,
                          Get order_url0, Print (JStr ''running''), Sleep 10,
                          Get order_url0, Print (JStr ''running''), Sleep 10]\<rparr>"
  by (simp add: eval_nat_numeral run_defs always_running_def)

lemma while_steps_add:
  "while_steps (m + n) s u f =
     (case while_steps m s u f of Inl res \<Rightarrow> Inl res | Inr f' \<Rightarrow> while_steps n s u f')"
proof (induction m arbitrary: f)
  case 0
  then show ?case by simp
next
  case (Suc m)
  obtain sg g where lb: "loop_body s u f = (sg, g)"
    by (cases "loop_body s u f")
  show ?case
    by (cases sg) (simp_all add: lb Suc.IH)
qed

lemma while_steps_through:
  assumes "\<forall>i<length sts. reply_state (session_get s u (session_auth s) (n_get f + i))
                            = Some (sts ! i)"
    and "set sts \<inter> set end_states = {}"
    and "v_state f \<notin> set end_states"
  shows "\<exists>f'. while_steps (length sts) s u f = Inr f' \<and>
              trace f' = trace f @ polling_events u sts \<and>
              n_get f' = n_get f + length sts \<and> v_state f' \<notin> set end_states"
  using assms
proof (induction sts arbitrary: f)
  case Nil
  then show ?case by simp
next
  case (Cons st sts)
  from Cons.prems(1) have "reply_state (session_get s u (session_auth s) (n_get f + 0))
      = Some ((st # sts) ! 0)"
    by blast
  then have rs: "reply_state (session_get s u (session_auth s) (n_get f)) = Some st"
    by simp
  then obtain resp where resp: "session_get s u (session_auth s) (n_get f) = Returns resp"
    by (blast dest: reply_state_Returns)
  from rs resp have rs': "reply_state (Returns resp) = Some st" by simp
  from Cons.prems(2) have nt: "st \<notin> set end_states" by auto
  let ?g = "f\<lparr>v_state := st, v_r := Some resp, n_get := Suc (n_get f),
                trace := trace f @ [Get u, Print st, Sleep 10]\<rparr>"
  from Cons.prems(3) resp rs' nt
  have step: "while_steps (Suc (length sts)) s u f = while_steps (length sts) s u ?g"
    by (rule while_steps_go_on)
  have later: "\<forall>i<length sts. reply_state (session_get s u (session_auth s) (n_get ?g + i))
                            = Some (sts ! i)"
  proof (intro allI impI)
    fix i assume "i < length sts"
    then have "Suc i < length (st # sts)" by simp
    with Cons.prems(1)
    have "reply_state (session_get s u (session_auth s) (n_get f + Suc i))
            = Some ((st # sts) ! Suc i)"
      by blast
    then show "reply_state (session_get s u (session_auth s) (n_get ?g + i)) = Some (sts ! i)"
      by simp
  qed
  from Cons.prems(2) have disj: "set sts \<inter> set end_states = {}" by auto
  from nt have "v_state ?g \<notin> set end_states" by simp
  from Cons.IH [OF later disj this] obtain f' where
    "while_steps (length sts) s u ?g = Inr f'"
    "trace f' = trace ?g @ polling_events u sts"
    "n_get f' = n_get ?g + length sts" "v_state f' \<notin> set end_states"
    by blast
  with step show ?case by simp
qed

lemma observed_nth:
  assumes "observed s u k = map Some sts"
  shows "length sts = k"
    and "\<forall>i<length sts. reply_state (session_get s u (session_auth s) i) = Some (sts ! i)"
proof -
  from assms have "length (observed s u k) = length (map Some sts)" by simp
  then show len: "length sts = k" by (simp add: observed_def)
  show "\<forall>i<length sts. reply_state (session_get s u (session_auth s) i) = Some (sts ! i)"
  proof (intro allI impI)
    fix i assume i: "i < length sts"
    from assms have "observed s u k ! i = map Some sts ! i" by simp
    with i len show "reply_state (session_get s u (session_auth s) i) = Some (sts ! i)"
      by (simp add: observed_def)
  qed
qed

lemma while_steps_observed:
  assumes "observed s u k = map Some sts" and "set sts \<inter> set end_states = {}"
  shows "\<exists>f. while_steps k s u initial_frame = Inr f \<and> trace f = polling_events u sts \<and>
             n_get f = k \<and> v_state f \<notin> set end_states"
proof -
  from observed_nth [OF assms(1)] have len: "length sts = k"
    and nth: "\<forall>i<length sts. reply_state
         (session_get s u (session_auth s) (n_get initial_frame + i)) = Some (sts ! i)"
    by (simp_all add: initial_frame_def)
  from while_steps_through [where u = u, OF nth assms(2) initial_frame_nonterminal] len
  show ?thesis by (simp add: initial_frame_def)
qed

lemma poll_returns_on_first_terminal:
  assumes obs: "observed s u k = map Some sts" and disj: "set sts \<inter> set end_states = {}"
    and rep: "session_get s u (session_auth s) k = Returns resp"
    and st: "reply_state (Returns resp) = Some st" and fin: "st \<in> set end_states"
  shows "poll_for_success s u = Some (Inr resp, polling_events u sts @ [Get u, Print st])"
proof -
  from while_steps_observed [OF obs disj] obtain f where
    f: "while_steps k s u initial_frame = Inr f" "trace f = polling_events u sts"
       "n_get f = k" "v_state f \<notin> set end_states"
    by blast
  from f(3) rep have get': "session_get s u (session_auth s) (n_get f) = Returns resp"
    by simp
  from f(4) get' st fin
  have "while_steps (Suc 0) s u f =
          Inl (None, f\<lparr>v_state := st, v_r := Some resp, n_get := Suc (n_get f),
                        trace := trace f @ [Get u, Print st]\<rparr>)"
    by (rule while_steps_stop)
  with f(1) while_steps_add [of k "Suc 0" s u initial_frame]
  have "while_steps (k + Suc 0) s u initial_frame =
          Inl (None, f\<lparr>v_state := st, v_r := Some resp, n_get := Suc (n_get f),
                        trace := trace f @ [Get u, Print st]\<rparr>)"
    by simp
  from poll_for_success_from_steps [OF this] f(2) show ?thesis
    by simp
qed

lemma observed_running_then_success_5:
  "observed (stub_session (running_then_success 5)) order_url0 5
     = map Some (replicate 5 (JStr ''running''))"
  by (simp add: observed_def running_then_success_def eval_nat_numeral upt_rec)

lemma steps_unavailable_then_success:
  "while_steps 3 (stub_session unavailable_then_success) order_url0 initial_frame =
     Inl (None, \<lparr>v_state = JStr ''success'', v_r = Some success_response, n_get = 3,
                 trace = [Get order_url0, Print (JStr ''running''), Sleep 10,
                          Get order_url0, Print (JStr ''running''), Sleep 10,
                          Get order_url0, Print (JStr ''success'')]\<rparr>)"
  by (simp add: eval_nat_numeral run_defs unavailable_then_success_def unavailable_response_def)

lemma steps_running_then_not_found:
  "while_steps 2 (stub_session running_then_not_found) order_url0 initial_frame =
     Inl (Some (KeyError ''state''),
          \<lparr>v_state = JStr ''running'', v_r = Some not_found_response, n_get = 2,
            trace = [Get order_url0, Print (JStr ''running''), Sleep 10, Get order_url0]\<rparr>)"
  by (simp add: eval_nat_numeral run_defs running_then_not_found_def not_found_response_def)

text \<open>
  An exception raised by \<^verbatim>\<open>session.get\<close> itself leaves the function at once: when the
  first reply carries a non-terminal state and the second GET raises, two GETs are sent
  and the exception escapes.
\<close>

lemma session_get_exception_escapes:
  assumes q0: "reply_state (session_get s u (session_auth s) 0) = Some st"
    and nt: "st \<notin> set end_states"
    and q1: "session_get s u (session_auth s) 1 = Raises msg"
  shows "\<exists>tr. poll_for_success s u = Some (Inl (RequestException msg), tr) \<and>
           tr = [Get u, Print st, Sleep 10, Get u] \<and> queries tr = 2"
proof -
  from q0 obtain r1 where g0: "session_get s u (session_auth s) 0 = Returns r1"
    by (blast dest: reply_state_Returns)
  define f1 where "f1 = \<lparr>v_state = st, v_r = Some r1, n_get = Suc 0,
     trace = [Get u, Print st, Sleep 10]\<rparr>"
  have s1: "while_steps (Suc (Suc 0)) s u initial_frame = while_steps (Suc 0) s u f1"
    using q0 g0 nt initial_frame_nonterminal
    by (subst while_steps_go_on [where resp = r1 and st = st])
       (simp_all add: initial_frame_def f1_def)
  have s2: "while_steps (Suc 0) s u f1 =
      Inl (Some (RequestException msg), f1\<lparr>n_get := Suc (n_get f1), trace := trace f1 @ [Get u]\<rparr>)"
    using q1 nt
    by (intro while_steps_transport) (simp_all add: f1_def)
  from s1 s2 have "while_steps (Suc (Suc 0)) s u initial_frame =
      Inl (Some (RequestException msg), f1\<lparr>n_get := Suc (n_get f1), trace := trace f1 @ [Get u]\<rparr>)"
    by simp
  from poll_for_success_from_steps [OF this] show ?thesis
    by (simp add: f1_def)
qed

lemma poll_running_then_transport_failure:
  "\<exists>tr. poll_for_success (stub_session running_then_transport_failure) order_url0
           = Some (Inl (RequestException ''Connection aborted.''), tr) \<and>
         tr = [Get order_url0, Print (JStr ''running''), Sleep 10, Get order_url0] \<and>
         queries tr = 2"
  using session_get_exception_escapes
    [of "stub_session running_then_transport_failure" order_url0 "JStr ''running''"
        "''Connection aborted.''"]
  by (simp add: running_then_transport_failure_def)

section \<open>The claims\<close>

text \<open>
  C1. Whenever \<^verbatim>\<open>poll_for_success\<close> returns, the response it returns carries a
  state, and that state is one of \<^verbatim>\<open>success\<close>, \<^verbatim>\<open>failed\<close>, \<^verbatim>\<open>partial\<close>:
  it never returns on \<^verbatim>\<open>queued\<close>, \<^verbatim>\<open>running\<close> or any other value.
\<close>

theorem poll_for_success_returns_terminal_state:
  assumes "poll_for_success s u = Some (Inr resp, tr)"
  shows "\<exists>st. reply_state (Returns resp) = Some st \<and>
              st \<in> {JStr ''success'', JStr ''failed'', JStr ''partial''}"
  using assms
proof (cases rule: poll_for_success_inv [where I = "\<lambda>g. True"])
  case (Returned g f' r)
  from Returned(2,4) obtain st where "reply_state (Returns r) = Some st" "st \<in> set end_states"
    by (auto elim!: loop_body_Break)
  with Returned(3) show ?thesis
    by (auto simp: end_states_def)
qed simp_all

theorem poll_for_success_returns_terminal_state_witness:
  "\<exists>st. reply_state (Returns success_response) = Some st \<and>
        st \<in> {JStr ''success'', JStr ''failed'', JStr ''partial''}"
  using poll_for_success_returns_terminal_state [OF poll_queued_running_running_success] .

text \<open>
  C2. Against a service whose first four replies carry the states \<^verbatim>\<open>queued\<close>,
  \<^verbatim>\<open>running\<close>, \<^verbatim>\<open>running\<close>, \<^verbatim>\<open>success\<close>, \<^verbatim>\<open>poll_for_success\<close> sends
  exactly four GETs and returns the fourth response itself, the one that carries
  \<^verbatim>\<open>success\<close> and the result manifest.
\<close>

theorem poll_for_success_queued_running_running_success:
  assumes q0: "reply_state (session_get s u (session_auth s) 0) = Some (JStr ''queued'')"
    and q1: "reply_state (session_get s u (session_auth s) 1) = Some (JStr ''running'')"
    and q2: "reply_state (session_get s u (session_auth s) 2) = Some (JStr ''running'')"
    and q3: "session_get s u (session_auth s) 3 = Returns r4"
    and st3: "reply_state (Returns r4) = Some (JStr ''success'')"
  shows "\<exists>tr. poll_for_success s u = Some (Inr r4, tr) \<and> queries tr = 4 \<and>
           tr = [Get u, Print (JStr ''queued''), Sleep 10,
                 Get u, Print (JStr ''running''), Sleep 10,
                 Get u, Print (JStr ''running''), Sleep 10,
                 Get u, Print (JStr ''success'')]"
proof -
  from q0 obtain r1 where g0: "session_get s u (session_auth s) 0 = Returns r1"
    by (blast dest: reply_state_Returns)
  from q1 obtain r2 where g1: "session_get s u (session_auth s) (Suc 0) = Returns r2"
    by (auto dest: reply_state_Returns)
  from q2 obtain r3 where g2: "session_get s u (session_auth s) (Suc (Suc 0)) = Returns r3"
    by (auto dest: reply_state_Returns simp: numeral_2_eq_2)
  from q3 have g3: "session_get s u (session_auth s) (Suc (Suc (Suc 0))) = Returns r4"
    by (simp add: numeral_3_eq_3)
  define f1 where "f1 = \<lparr>v_state = JStr ''queued'', v_r = Some r1, n_get = Suc 0,
     trace = [Get u, Print (JStr ''queued''), Sleep 10]\<rparr>"
  define f2 where "f2 = \<lparr>v_state = JStr ''running'', v_r = Some r2, n_get = Suc (Suc 0),
     trace = [Get u, Print (JStr ''queued''), Sleep 10, Get u, Print (JStr ''running''), Sleep 10]\<rparr>"
  define f3 where "f3 = \<lparr>v_state = JStr ''running'', v_r = Some r3, n_get = Suc (Suc (Suc 0)),
     trace = [Get u, Print (JStr ''queued''), Sleep 10, Get u, Print (JStr ''running''), Sleep 10,
              Get u, Print (JStr ''running''), Sleep 10]\<rparr>"
  define f4 where "f4 = \<lparr>v_state = JStr ''success'', v_r = Some r4, n_get = Suc (Suc (Suc (Suc 0))),
     trace = [Get u, Print (JStr ''queued''), Sleep 10, Get u, Print (JStr ''running''), Sleep 10,
              Get u, Print (JStr ''running''), Sleep 10, Get u, Print (JStr ''success'')]\<rparr>"
  have s1: "while_steps (Suc (Suc (Suc (Suc 0)))) s u initial_frame = while_steps (Suc (Suc (Suc 0))) s u f1"
    using q0 g0 initial_frame_nonterminal
    by (subst while_steps_go_on [where resp = r1 and st = "JStr ''queued''"])
       (simp_all add: initial_frame_def f1_def)
  have s2: "while_steps (Suc (Suc (Suc 0))) s u f1 = while_steps (Suc (Suc 0)) s u f2"
    using q1 g1
    by (subst while_steps_go_on [where resp = r2 and st = "JStr ''running''"])
       (simp_all add: f1_def f2_def)
  have s3: "while_steps (Suc (Suc 0)) s u f2 = while_steps (Suc 0) s u f3"
    using q2 g2
    by (subst while_steps_go_on [where resp = r3 and st = "JStr ''running''"])
       (simp_all add: f2_def f3_def numeral_2_eq_2)
  have s4: "while_steps (Suc 0) s u f3 = Inl (None, f4)"
    using st3 g3
    by (subst while_steps_stop [where resp = r4 and st = "JStr ''success''"])
       (simp_all add: f3_def f4_def)
  from s1 s2 s3 s4 have "while_steps (Suc (Suc (Suc (Suc 0)))) s u initial_frame = Inl (None, f4)"
    by simp
  from poll_for_success_from_steps [OF this] show ?thesis
    by (simp add: f4_def)
qed

theorem poll_for_success_queued_running_running_success_witness:
  "\<exists>tr. poll_for_success (stub_session queued_running_running_success) order_url0
           = Some (Inr success_response, tr) \<and> queries tr = 4 \<and>
         tr = [Get order_url0, Print (JStr ''queued''), Sleep 10,
               Get order_url0, Print (JStr ''running''), Sleep 10,
               Get order_url0, Print (JStr ''running''), Sleep 10,
               Get order_url0, Print (JStr ''success'')]"
  using poll_for_success_queued_running_running_success
    [of "stub_session queued_running_running_success" order_url0 success_response]
  by (simp add: queued_running_running_success_def)

text \<open>
  C3. The docstring of \<^verbatim>\<open>poll_for_success\<close> promises that polling "fails after
  num_loops", but the function has neither the parameter nor a counter. Against the
  service that always answers \<^verbatim>\<open>running\<close>, the loop is still running after three
  queries, sleeps, sends a fourth query, and the call never returns or raises.
\<close>

theorem poll_for_success_polls_beyond_three_attempts:
  "while_steps 3 (stub_session always_running) order_url0 initial_frame =
     Inr \<lparr>v_state = JStr ''running'',
          v_r = Some \<lparr>status_code = 200, decoded = Some (JObj [(''state'', JStr ''running'')])\<rparr>,
          n_get = 3,
          trace = [Get order_url0, Print (JStr ''running''), Sleep 10,
                   Get order_url0, Print (JStr ''running''), Sleep 10,
                   Get order_url0, Print (JStr ''running''), Sleep 10]\<rparr> \<and>
   while_steps 4 (stub_session always_running) order_url0 initial_frame =
     Inr \<lparr>v_state = JStr ''running'',
          v_r = Some \<lparr>status_code = 200, decoded = Some (JObj [(''state'', JStr ''running'')])\<rparr>,
          n_get = 4,
          trace = [Get order_url0, Print (JStr ''running''), Sleep 10,
                   Get order_url0, Print (JStr ''running''), Sleep 10,
                   Get order_url0, Print (JStr ''running''), Sleep 10,
                   Get order_url0, Print (JStr ''running''), Sleep 10]\<rparr> \<and>
   poll_for_success (stub_session always_running) order_url0 = None"
  using steps_always_running_3 steps_always_running_4 poll_always_running
  by simp

text \<open>
  C4. \<^verbatim>\<open>poll_for_success\<close> never reads \<^verbatim>\<open>r.status_code\<close>, so a failure that the
  service reports as a non-2xx reply is not surfaced as such. When the second reply is an
  HTTP 503 whose body carries \<^verbatim>\<open>running\<close>, the poller prints it, sleeps, sends a third
  GET and returns the later success. When the second reply is an HTTP 404 without a
  \<^verbatim>\<open>state\<close>, what escapes is \<^verbatim>\<open>KeyError('state')\<close>.
\<close>

theorem poll_for_success_ignores_status_code:
  "unavailable_then_success 1 = Returns unavailable_response \<and>
   status_code unavailable_response = 503 \<and>
   poll_for_success (stub_session unavailable_then_success) order_url0 =
     Some (Inr success_response,
           [Get order_url0, Print (JStr ''running''), Sleep 10,
            Get order_url0, Print (JStr ''running''), Sleep 10,
            Get order_url0, Print (JStr ''success'')]) \<and>
   running_then_not_found 1 = Returns not_found_response \<and>
   status_code not_found_response = 404 \<and>
   poll_for_success (stub_session running_then_not_found) order_url0 =
     Some (Inl (KeyError ''state''),
           [Get order_url0, Print (JStr ''running''), Sleep 10, Get order_url0])"
  by (simp add: poll_for_success_from_steps [OF steps_unavailable_then_success]
      poll_for_success_from_steps [OF steps_running_then_not_found]
      unavailable_then_success_def running_then_not_found_def
      unavailable_response_def not_found_response_def)

text \<open>
  C5. When the service answers the POST with HTTP 400 and the error body of the Orders
  API, \<^verbatim>\<open>place_order\<close> raises \<^verbatim>\<open>KeyError('id')\<close>: it never reads the status
  code, and the exception carries the missing key, not the response body.
\<close>

theorem place_order_rejected_raises_KeyError:
  "status_code rejected_response = 400 \<and>
   session_post rejecting_session ORDERS_API_URL (order_params (JStr ''credentials''))
      (''PL_API_KEY'', []) = Returns rejected_response \<and>
   place_order rejecting_session (order_params (JStr ''credentials'')) (''PL_API_KEY'', [])
     = Inl (KeyError ''id'')"
  by (simp add: place_order_def rejecting_session_def rejected_response_def response_json_def)




text \<open>
  C7. Every iteration sends exactly one GET. An iteration that observes a state outside
  \<^verbatim>\<open>end_states\<close> prints it and sleeps 10 seconds before the next GET; the iteration
  that observes a terminal state prints it and ends the run with no sleep after it. So
  the trace of a run that returns is a row of (GET, print, sleep 10) for non-terminal
  states followed by one (GET, print) for a terminal state; a run that ends in an
  exception stops at the GET that failed; and a run still going after \<open>n\<close> iterations
  has made exactly \<open>n\<close> rounds of (GET, print, sleep 10). Conversely, when the first
  \<open>k\<close> replies carry non-terminal states the loop does go through \<open>k\<close> such rounds,
  and when the next reply then carries a terminal state the function does return, with
  that very response, straight after printing the state.
\<close>

theorem poll_for_success_sleeps_after_nonterminal_only:
  "(poll_for_success s u = Some (out, tr) \<longrightarrow>
      (\<exists>sts. set sts \<inter> set end_states = {} \<and>
         (case out of
            Inr resp \<Rightarrow>
              (\<exists>st. st \<in> set end_states \<and> tr = polling_events u sts @ [Get u, Print st])
          | Inl e \<Rightarrow> tr = polling_events u sts @ [Get u]))) \<and>
   (while_steps n s u initial_frame = Inr f \<longrightarrow>
      (\<exists>sts. length sts = n \<and> set sts \<inter> set end_states = {} \<and>
             trace f = polling_events u sts)) \<and>
   (observed s u k = map Some obs \<and> set obs \<inter> set end_states = {} \<longrightarrow>
      (\<exists>g. while_steps k s u initial_frame = Inr g \<and> trace g = polling_events u obs)) \<and>
   (observed s u k = map Some obs \<and> set obs \<inter> set end_states = {} \<and>
    session_get s u (session_auth s) k = Returns resp \<and>
    reply_state (Returns resp) = Some st \<and> st \<in> set end_states \<longrightarrow>
      poll_for_success s u = Some (Inr resp, polling_events u obs @ [Get u, Print st]))"
proof -
  let ?I = "\<lambda>g::frame. \<exists>sts. length sts = n_get g \<and> set sts \<inter> set end_states = {} \<and>
                trace g = polling_events u sts"
  have I0: "?I initial_frame"
    by (simp add: initial_frame_def)
  have Ipres: "\<And>g g'. ?I g \<Longrightarrow> v_state g \<notin> set end_states \<Longrightarrow>
                 loop_body s u g = (Fallthrough, g') \<Longrightarrow> ?I g'"
  proof -
    fix g g' :: frame
    assume inv: "?I g" and lb: "loop_body s u g = (Fallthrough, g')"
    from inv obtain sts where sts: "length sts = n_get g"
      "set sts \<inter> set end_states = {}" "trace g = polling_events u sts"
      by blast
    from lb obtain st where st: "st \<notin> set end_states"
      "n_get g' = Suc (n_get g)" "trace g' = trace g @ [Get u, Print st, Sleep 10]"
      by (auto elim!: loop_body_Fallthrough)
    from sts st have "length (sts @ [st]) = n_get g'"
      "set (sts @ [st]) \<inter> set end_states = {}"
      "trace g' = polling_events u (sts @ [st])"
      by (simp_all add: polling_events_snoc)
    then show "?I g'" by blast
  qed
  have part1: "\<exists>sts. set sts \<inter> set end_states = {} \<and>
         (case out of
            Inr resp \<Rightarrow>
              (\<exists>st. st \<in> set end_states \<and> tr = polling_events u sts @ [Get u, Print st])
          | Inl e \<Rightarrow> tr = polling_events u sts @ [Get u])"
    if run: "poll_for_success s u = Some (out, tr)"
    using run
  proof (cases rule: poll_for_success_inv [where I = ?I])
    case init
    show ?case by (rule I0)
  next
    case (pres g g')
    then show ?case by (rule Ipres)
  next
    case (Raised g f' e)
    from Raised(1) obtain sts where sts: "set sts \<inter> set end_states = {}"
      "trace g = polling_events u sts"
      by blast
    from Raised(2) have "trace f' = trace g @ [Get u]"
      by (rule loop_body_Raise)
    with sts Raised(3,4) show ?thesis
      by auto
  next
    case (Returned g f' resp)
    from Returned(1) obtain sts where sts: "set sts \<inter> set end_states = {}"
      "trace g = polling_events u sts"
      by blast
    from Returned(2) obtain st where "st \<in> set end_states"
      "trace f' = trace g @ [Get u, Print st]"
      by (auto elim!: loop_body_Break)
    with sts Returned(3,5) show ?thesis
      by auto
  qed
  have part2: "\<exists>sts. length sts = n \<and> set sts \<inter> set end_states = {} \<and>
             trace f = polling_events u sts"
    if run: "while_steps n s u initial_frame = Inr f"
  proof -
    have "?I f \<and> n_get f = n \<and> v_state f \<notin> set end_states"
      using run I0 Ipres by (rule while_steps_running_inv [where I = ?I])
    then show ?thesis by auto
  qed
  have part3: "\<exists>g. while_steps k s u initial_frame = Inr g \<and> trace g = polling_events u obs"
    if "observed s u k = map Some obs" and "set obs \<inter> set end_states = {}"
    using while_steps_observed [OF that] by blast
  have part4: "poll_for_success s u = Some (Inr resp, polling_events u obs @ [Get u, Print st])"
    if "observed s u k = map Some obs" and "set obs \<inter> set end_states = {}"
      and "session_get s u (session_auth s) k = Returns resp"
      and "reply_state (Returns resp) = Some st" and "st \<in> set end_states"
    using that by (rule poll_returns_on_first_terminal)
  from part1 part2 part3 part4 show ?thesis by blast
qed

theorem poll_for_success_sleeps_after_nonterminal_only_witness:
  "(\<exists>sts. set sts \<inter> set end_states = {} \<and>
      (\<exists>st. st \<in> set end_states \<and>
         polling_events order_url0 (replicate 5 (JStr ''running'')) @
             [Get order_url0, Print (JStr ''success'')]
           = polling_events order_url0 sts @ [Get order_url0, Print st])) \<and>
   (\<exists>sts. length sts = 3 \<and> set sts \<inter> set end_states = {} \<and>
      polling_events order_url0 (replicate 3 (JStr ''running''))
        = polling_events order_url0 sts) \<and>
   (\<exists>g. while_steps 5 (stub_session (running_then_success 5)) order_url0 initial_frame = Inr g
        \<and> trace g = polling_events order_url0 (replicate 5 (JStr ''running''))) \<and>
   poll_for_success (stub_session (running_then_success 5)) order_url0 =
     Some (Inr success_response,
           polling_events order_url0 (replicate 5 (JStr ''running'')) @
             [Get order_url0, Print (JStr ''success'')])"
proof -
  note inst = poll_for_success_sleeps_after_nonterminal_only
    [where s = "stub_session (running_then_success 5)" and u = order_url0
       and out = "Inr success_response"
       and tr = "polling_events order_url0 (replicate 5 (JStr ''running'')) @
             [Get order_url0, Print (JStr ''success'')]"
       and n = 3
       and f = "\<lparr>v_state = JStr ''running'',
          v_r = Some \<lparr>status_code = 200, decoded = Some (JObj [(''state'', JStr ''running'')])\<rparr>,
          n_get = 3,
          trace = polling_events order_url0 (replicate 3 (JStr ''running''))\<rparr>"
       and k = 5 and obs = "replicate 5 (JStr ''running'')"
       and resp = success_response and st = "JStr ''success''"]
  have h3: "observed (stub_session (running_then_success 5)) order_url0 5
              = map Some (replicate 5 (JStr ''running'')) \<and>
            set (replicate 5 (JStr ''running'')) \<inter> set end_states = {}"
    by (simp add: observed_running_then_success_5)
  have h4: "observed (stub_session (running_then_success 5)) order_url0 5
              = map Some (replicate 5 (JStr ''running'')) \<and>
            set (replicate 5 (JStr ''running'')) \<inter> set end_states = {} \<and>
            session_get (stub_session (running_then_success 5)) order_url0
              (session_auth (stub_session (running_then_success 5))) 5
              = Returns success_response \<and>
            reply_state (Returns success_response) = Some (JStr ''success'') \<and>
            JStr ''success'' \<in> set end_states"
    by (simp add: observed_running_then_success_5 running_then_success_def)
  from inst [THEN conjunct1, THEN mp, OF poll_running_then_success_5]
       inst [THEN conjunct2, THEN conjunct1, THEN mp, OF steps_running_then_success_5_at_3]
       inst [THEN conjunct2, THEN conjunct2, THEN conjunct1, THEN mp, OF h3]
       inst [THEN conjunct2, THEN conjunct2, THEN conjunct2, THEN mp, OF h4]
  show ?thesis
    by simp
qed

text \<open>
  C8. \<^verbatim>\<open>poll_for_success\<close> takes no attempt limit. Against a service whose every
  reply carries a non-terminal state it never returns and never raises, and for every
  \<open>n\<close> it is still in its loop after \<open>n\<close> iterations, having sent \<open>n\<close> GETs.
\<close>

theorem poll_for_success_never_returns_without_terminal_state:
  assumes "\<forall>k. \<exists>st. reply_state (session_get s u (session_auth s) k) = Some st
                    \<and> st \<notin> set end_states"
  shows "poll_for_success s u = None \<and>
         (\<forall>n. \<exists>f. while_steps n s u initial_frame = Inr f \<and> queries (trace f) = n)"
proof -
  have "while_loop s u initial_frame = None"
    using assms initial_frame_nonterminal by (rule while_loop_never_terminal)
  then have "poll_for_success s u = None"
    by (simp add: poll_for_success_def)
  moreover have "\<exists>f. while_steps n s u initial_frame = Inr f \<and> queries (trace f) = n" for n
    using while_steps_never_terminal [OF assms initial_frame_nonterminal, of n]
    by (auto simp: initial_frame_def)
  ultimately show ?thesis by blast
qed

theorem poll_for_success_never_returns_without_terminal_state_witness:
  "poll_for_success (stub_session always_running) order_url0 = None \<and>
   (\<forall>n. \<exists>f. while_steps n (stub_session always_running) order_url0 initial_frame = Inr f
            \<and> queries (trace f) = n)"
proof -
  have "\<forall>k. \<exists>st. reply_state (session_get (stub_session always_running) order_url0
                    (session_auth (stub_session always_running)) k) = Some st
                \<and> st \<notin> set end_states"
    by (simp add: always_running_def)
  then show ?thesis
    by (rule poll_for_success_never_returns_without_terminal_state)
qed

text \<open>
  C10. The initial value of \<^verbatim>\<open>state\<close>, the empty string, is not in
  \<^verbatim>\<open>end_states\<close>, so the loop body runs before anything else happens: whenever
  \<^verbatim>\<open>poll_for_success\<close> returns or raises, its first action was a GET to the order URL,
  and \<^verbatim>\<open>return r\<close> never finds \<^verbatim>\<open>r\<close> unbound.
\<close>

theorem poll_for_success_queries_before_returning:
  assumes "poll_for_success s u = Some (out, tr)"
  shows "v_state initial_frame \<notin> set end_states \<and> 1 \<le> queries tr \<and> hd tr = Get u \<and>
         out \<noteq> Inl (UnboundLocalError ''r'')"
proof -
  let ?I = "\<lambda>g::frame. trace g = [] \<or> hd (trace g) = Get u"
  have "1 \<le> queries tr \<and> hd tr = Get u \<and> out \<noteq> Inl (UnboundLocalError ''r'')"
    using assms
  proof (cases rule: poll_for_success_inv [where I = ?I])
    case init
    show ?case by (simp add: initial_frame_def)
  next
    case (pres g g')
    then show ?case
      by (auto elim!: loop_body_Fallthrough simp: hd_append split: if_splits)
  next
    case (Raised g f' e)
    from Raised(2) have "trace f' = trace g @ [Get u]" "e \<noteq> UnboundLocalError ''r''"
      by (rule loop_body_Raise)+
    with Raised(1,3,4) show ?thesis
      by (auto simp: queries_append hd_append split: if_splits)
  next
    case (Returned g f' resp)
    from Returned(2) obtain st where "trace f' = trace g @ [Get u, Print st]"
      by (auto elim!: loop_body_Break)
    with Returned(1,3,5) show ?thesis
      by (auto simp: queries_append hd_append split: if_splits)
  qed
  with initial_frame_nonterminal show ?thesis by simp
qed

theorem poll_for_success_queries_before_returning_witness:
  "v_state initial_frame \<notin> set end_states \<and>
   1 \<le> queries [Get order_url0, Print (JStr ''queued''), Sleep 10,
            Get order_url0, Print (JStr ''running''), Sleep 10,
            Get order_url0, Print (JStr ''running''), Sleep 10,
            Get order_url0, Print (JStr ''success'')] \<and>
   hd [Get order_url0, Print (JStr ''queued''), Sleep 10,
            Get order_url0, Print (JStr ''running''), Sleep 10,
            Get order_url0, Print (JStr ''running''), Sleep 10,
            Get order_url0, Print (JStr ''success'')] = Get order_url0 \<and>
   Inr success_response \<noteq> Inl (UnboundLocalError ''r'')"
  using poll_for_success_queries_before_returning [OF poll_queued_running_running_success] .

end
